theory Spec2Isabelle
  imports Main "HOL-Library.Sublist"
begin

section \<open>The searchable multi-select of src/components/profile/ui/MultiSelect.tsx\<close>

text \<open>
  A JavaScript string is modelled as a \<^typ>\<open>string\<close>, the list of its code units; only
  equality, substring search and lowercasing are ever applied to one. The built-in
  \<^verbatim>\<open>String.prototype.toLowerCase\<close> belongs to the language, not to the repository:
  every definition that lowercases takes it as the parameter \<open>toLowerCase\<close>, and the
  theorems hold for any such function. \<open>toLowerCase_ascii\<close> is the instance at which the
  closed theorems are evaluated; it agrees with the built-in on ASCII text.
\<close>

subsection \<open>Built-ins of the language\<close>

definition lower_unit :: "char \<Rightarrow> char" where
  "lower_unit c =
     (let n = (of_char c :: nat) in if 65 \<le> n \<and> n \<le> 90 then char_of (n + 32) else c)"

definition toLowerCase_ascii :: "string \<Rightarrow> string" where
  "toLowerCase_ascii s = map lower_unit s"

text \<open>
  \<^verbatim>\<open>String.prototype.includes(t)\<close>: whether \<open>t\<close> occurs in \<open>s\<close> at some position,
  searched from position 0 on. The empty string occurs in every string.
\<close>

fun string_includes :: "string \<Rightarrow> string \<Rightarrow> bool" where
  "string_includes [] t = (t = [])"
| "string_includes (x # xs) t = (prefix t (x # xs) \<or> string_includes xs t)"

text \<open>
  \<^verbatim>\<open>Array.prototype.includes(x)\<close> on an array of strings: a left-to-right scan comparing
  with SameValueZero, which on strings is equality of the code unit sequences.
\<close>

fun array_includes :: "string list \<Rightarrow> string \<Rightarrow> bool" where
  "array_includes [] x = False"
| "array_includes (y # ys) x = (y = x \<or> array_includes ys x)"

subsection \<open>Props and state\<close>

text \<open>
  \<^verbatim>\<open>interface MultiSelectProps\<close>. The callback \<^verbatim>\<open>onChange\<close> is an effect: each handler
  returns, next to the new state, the list of argument lists it passed to \<^verbatim>\<open>onChange\<close>,
  in call order. \<^verbatim>\<open>placeholder\<close> is the prop after its default has been applied.
\<close>

record props =
  options :: "string list"
  selectedValues :: "string list"
  placeholder :: string
  error :: "string option"

text \<open>The two \<^verbatim>\<open>useState\<close> cells.\<close>

record state =
  isOpen :: bool
  searchTerm :: string

definition initial_state :: state where
  "initial_state = \<lparr>isOpen = False, searchTerm = []\<rparr>"

subsection \<open>Filtering (lines 25-28)\<close>

definition filteredOptions ::
  "(string \<Rightarrow> string) \<Rightarrow> props \<Rightarrow> state \<Rightarrow> string list" where
  "filteredOptions toLowerCase p s =
     filter (\<lambda>option.
        string_includes (toLowerCase option) (toLowerCase (searchTerm s)) \<and>
        \<not> array_includes (selectedValues p) option)
      (options p)"

subsection \<open>What is rendered (lines 74-157)\<close>

text \<open>
  The element tree that one call of the component returns, reduced to what depends on props
  and state: the placeholder (line 84), one chip per selected value (line 88), the search
  input with its value (line 108), the picker overlay (line 135) holding either a message
  or one row per filtered option, and the error paragraph (line 155). A JavaScript string
  is truthy when it is not empty. The rows and the chips are keyed by their text (lines 90
  and 144); what the document shows once the framework has matched the tree against the
  children already there is the subject of the section on keyed children below.
\<close>

datatype picker = EmptyMessage string | Candidates "string list"

record view =
  placeholder_shown :: "string option"
  chips :: "string list"
  search_input :: "string option"
  overlay :: "picker option"
  error_shown :: "string option"

definition render :: "(string \<Rightarrow> string) \<Rightarrow> props \<Rightarrow> state \<Rightarrow> view" where
  "render toLowerCase p s =
     \<lparr>placeholder_shown =
        (if length (selectedValues p) = 0 \<and> \<not> isOpen s then Some (placeholder p) else None),
      chips = map (\<lambda>value. value) (selectedValues p),
      search_input = (if isOpen s then Some (searchTerm s) else None),
      overlay =
        (if isOpen s then
           Some (if length (filteredOptions toLowerCase p s) = 0
                 then EmptyMessage (if searchTerm s \<noteq> [] then ''No options found''
                                    else ''No options available'')
                 else Candidates (map (\<lambda>option. option) (filteredOptions toLowerCase p s)))
         else None),
      error_shown =
        (case error p of None \<Rightarrow> None | Some e \<Rightarrow> if e \<noteq> [] then Some e else None)\<rparr>"

subsection \<open>Event handlers (lines 31-72)\<close>

text \<open>
  A handler maps the state to the new state and to the \<^verbatim>\<open>onChange\<close> calls it made. The
  focus requests of lines 47 and 60 change neither, and are left out.

  \<^verbatim>\<open>handleClickOutside\<close> reads \<^verbatim>\<open>dropdownRef.current\<close>, the root element or null, and
  asks whether it contains the event's target. An element is a number here, and a
  pointer-down event carries the target followed by its ancestors, so that
  \<^verbatim>\<open>root.contains(target)\<close> holds when the root is on that path.
\<close>

definition node_contains :: "nat \<Rightarrow> nat list \<Rightarrow> bool" where
  "node_contains node target_path = (node \<in> set target_path)"

definition handleClickOutside :: "nat option \<Rightarrow> nat list \<Rightarrow> state \<Rightarrow> state" where
  "handleClickOutside dropdownRef target_path s =
     (case dropdownRef of
        None \<Rightarrow> s
      | Some current \<Rightarrow>
          if \<not> node_contains current target_path then s\<lparr>isOpen := False\<rparr> else s)"

definition toggleDropdown :: "state \<Rightarrow> state" where
  "toggleDropdown s = s\<lparr>isOpen := \<not> isOpen s, searchTerm := []\<rparr>"

definition handleSelect :: "props \<Rightarrow> state \<Rightarrow> string \<Rightarrow> state \<times> string list list" where
  "handleSelect p s option = (s\<lparr>searchTerm := []\<rparr>, [selectedValues p @ [option]])"

definition handleRemove :: "props \<Rightarrow> state \<Rightarrow> string \<Rightarrow> state \<times> string list list" where
  "handleRemove p s option = (s, [filter (\<lambda>value. value \<noteq> option) (selectedValues p)])"

definition handleKeyDown :: "string \<Rightarrow> state \<Rightarrow> state" where
  "handleKeyDown key s = (if key = ''Escape'' then s\<lparr>isOpen := False\<rparr> else s)"

subsection \<open>Dispatch of user events\<close>

text \<open>
  One constructor per place where the component attaches a handler. The events name
  elements of the current element tree: an event on an element that the tree does not
  contain changes nothing here. A row or chip that an earlier render left in the document
  is reached by position instead, through \<open>RowClickAt\<close> and \<open>ChipRemoveAt\<close> below.
  \<^item> \<open>ContainerClick\<close>: a click that reaches the container of line 76, on it or bubbling
    from a chip's text or from the search input; it runs \<^verbatim>\<open>setIsOpen(true)\<close> (line 82).
  \<^item> \<open>RemoveClick v\<close>: the button of the chip \<open>v\<close>; \<^verbatim>\<open>stopPropagation\<close> keeps the click
    from the container (lines 96-99).
  \<^item> \<open>InputChange t\<close> and \<open>InputKeyDown k\<close>: the search input (lines 113-114).
  \<^item> \<open>ToggleClick\<close>: the chevron button, also with \<^verbatim>\<open>stopPropagation\<close> (lines 123-126).
  \<^item> \<open>OptionClick c\<close>: a row of the overlay (line 146); the overlay is not inside the
    container, so the click does not reach line 82.
  \<^item> \<open>MouseDown path\<close>: a pointer-down anywhere in the document, seen by the listener of
    line 38.
\<close>

datatype event =
    ContainerClick
  | RemoveClick string
  | InputChange string
  | InputKeyDown string
  | ToggleClick
  | OptionClick string
  | MouseDown "nat list"

fun step ::
  "(string \<Rightarrow> string) \<Rightarrow> nat option \<Rightarrow> props \<Rightarrow> state \<Rightarrow> event \<Rightarrow> state \<times> string list list"
where
  "step lc dropdownRef p s ContainerClick = (s\<lparr>isOpen := True\<rparr>, [])"
| "step lc dropdownRef p s (RemoveClick v) =
     (if v \<in> set (chips (render lc p s)) then handleRemove p s v else (s, []))"
| "step lc dropdownRef p s (InputChange t) =
     (case search_input (render lc p s) of
        None \<Rightarrow> (s, [])
      | Some _ \<Rightarrow> (s\<lparr>searchTerm := t\<rparr>, []))"
| "step lc dropdownRef p s (InputKeyDown k) =
     (case search_input (render lc p s) of
        None \<Rightarrow> (s, [])
      | Some _ \<Rightarrow> (handleKeyDown k s, []))"
| "step lc dropdownRef p s ToggleClick = (toggleDropdown s, [])"
| "step lc dropdownRef p s (OptionClick c) =
     (case overlay (render lc p s) of
        Some (Candidates cs) \<Rightarrow> if c \<in> set cs then handleSelect p s c else (s, [])
      | _ \<Rightarrow> (s, []))"
| "step lc dropdownRef p s (MouseDown target_path) =
     (handleClickOutside dropdownRef target_path s, [])"

subsection \<open>Mounting, the document listener and traces (lines 31-42)\<close>

text \<open>
  The listener list of \<^verbatim>\<open>document\<close> holds pairs of an event type and a handler, a handler
  being known by its identity. \<^verbatim>\<open>addEventListener\<close> appends the pair unless it is there;
  \<^verbatim>\<open>removeEventListener\<close> takes it out.
\<close>

type_synonym listener = "string \<times> nat"

definition addEventListener :: "listener list \<Rightarrow> string \<Rightarrow> nat \<Rightarrow> listener list" where
  "addEventListener ls ty h = (if (ty, h) \<in> set ls then ls else ls @ [(ty, h)])"

definition removeEventListener :: "listener list \<Rightarrow> string \<Rightarrow> nat \<Rightarrow> listener list" where
  "removeEventListener ls ty h = filter (\<lambda>l. l \<noteq> (ty, h)) ls"

text \<open>
  The effect of lines 31-42 and the cleanup it returns; \<open>h\<close> is the closure
  \<^verbatim>\<open>handleClickOutside\<close> that the effect creates, the same in both.
\<close>

definition effect_setup :: "nat \<Rightarrow> listener list \<Rightarrow> listener list" where
  "effect_setup h ls = addEventListener ls ''mousedown'' h"

definition effect_cleanup :: "nat \<Rightarrow> listener list \<Rightarrow> listener list" where
  "effect_cleanup h ls = removeEventListener ls ''mousedown'' h"

text \<open>
  The page around the component: the document's listeners, the mounted instance with its
  current props and state (if any), and the log of \<^verbatim>\<open>onChange\<close> calls the host has
  received. The host mounts, re-renders with new props, and unmounts. The effect has the
  empty dependency list, so the framework runs its setup once after mounting and its
  cleanup at unmounting, and a re-render runs neither. The state cells start at the
  arguments of \<^verbatim>\<open>useState\<close> (lines 19-20). A pointer-down reaches
  \<^verbatim>\<open>handleClickOutside\<close> only through the document's listener list. While mounted,
  \<^verbatim>\<open>dropdownRef.current\<close> is the root element \<open>root\<close> (line 75).
\<close>

record world =
  listeners :: "listener list"
  component :: "(props \<times> state) option"
  onChange_calls :: "string list list"

datatype lifecycle = Mount props | Rerender props | User event | Unmount

fun lifecycle_step ::
  "(string \<Rightarrow> string) \<Rightarrow> nat \<Rightarrow> nat \<Rightarrow> world \<Rightarrow> lifecycle \<Rightarrow> world"
where
  "lifecycle_step lc h root w (Mount p) =
     (case component w of
        None \<Rightarrow> w\<lparr>listeners := effect_setup h (listeners w),
                  component := Some (p, initial_state)\<rparr>
      | Some _ \<Rightarrow> w)"
| "lifecycle_step lc h root w (Rerender p) =
     (case component w of
        None \<Rightarrow> w
      | Some (_, s) \<Rightarrow> w\<lparr>component := Some (p, s)\<rparr>)"
| "lifecycle_step lc h root w Unmount =
     (case component w of
        None \<Rightarrow> w
      | Some _ \<Rightarrow> w\<lparr>listeners := effect_cleanup h (listeners w), component := None\<rparr>)"
| "lifecycle_step lc h root w (User (MouseDown target_path)) =
     (case component w of
        None \<Rightarrow> w
      | Some (p, s) \<Rightarrow>
          if (''mousedown'', h) \<in> set (listeners w)
          then w\<lparr>component := Some (p, fst (step lc (Some root) p s (MouseDown target_path)))\<rparr>
          else w)"
| "lifecycle_step lc h root w (User e) =
     (case component w of
        None \<Rightarrow> w
      | Some (p, s) \<Rightarrow>
          (case step lc (Some root) p s e of
             (s', calls) \<Rightarrow>
               w\<lparr>component := Some (p, s'), onChange_calls := onChange_calls w @ calls\<rparr>))"

definition run ::
  "(string \<Rightarrow> string) \<Rightarrow> nat \<Rightarrow> nat \<Rightarrow> world \<Rightarrow> lifecycle list \<Rightarrow> world" where
  "run lc h root w evs = foldl (lifecycle_step lc h root) w evs"

definition page :: "listener list \<Rightarrow> world" where
  "page ls = \<lparr>listeners = ls, component = None, onChange_calls = []\<rparr>"

subsection \<open>Keyed children: what stays in the document (lines 88-106 and 142-150)\<close>

text \<open>
  The rows carry \<^verbatim>\<open>key={option}\<close> and the chips \<^verbatim>\<open>key={value}\<close>. The framework, React, does not
  rebuild such a list on every render: it matches the new elements against the children
  it is tracking and edits the document. The matching is by key, and with two children
  under one key it loses track of one of them, whose node then stays in the document.
  This section follows the framework's child reconciliation step by step.

  An element is a key (\<open>None\<close> for the unkeyed message of line 138) and what it shows. A
  child of the host node is such an element together with the index of the tracked child
  it belongs to, or \<open>None\<close> once the framework tracks it no longer. \<open>fibers\<close> is the list
  of tracked children, \<open>nodes\<close> the children of the host node in document order.
\<close>

type_synonym 'a element = "string option \<times> 'a"
type_synonym 'a dom_child = "nat option \<times> 'a element"

record 'a children =
  fibers :: "'a element list"
  nodes :: "'a dom_child list"

definition mount_children :: "'a element list \<Rightarrow> 'a children" where
  "mount_children news = \<lparr>fibers = news, nodes = zip (map Some [0..<length news]) news\<rparr>"

text \<open>
  Reconciling an array of elements. The first pass walks old and new children together for
  as long as the keys agree, and reuses those children in place. If the new list ends
  there, the remaining old children are deleted; if the old list ends there, the remaining
  new children are created. Otherwise the remaining old children go into a map from key
  (from index, for an unkeyed child) to child, filled in list order with
  \<^verbatim>\<open>existingChildren.set\<close>: of two old children under one key only the later one is in
  the map. The second pass looks each remaining new child up: a hit is reused and taken
  out of the map, a miss is created. A reused child whose old index lies below the last
  index placed so far is flagged for placement, and so is every created child. What is
  left in the map at the end is deleted. An old child that was shadowed in the map is
  neither reused nor deleted.

  The result is a plan, one entry per new child (the old index it reuses, if any, and the
  placement flag), and the list of deleted old indices.
\<close>

datatype map_key = ByKey string | ByIndex nat

definition slot_key :: "'a element \<Rightarrow> nat \<Rightarrow> map_key" where
  "slot_key e i = (case fst e of Some k \<Rightarrow> ByKey k | None \<Rightarrow> ByIndex i)"

fun first_pass :: "'a element list \<Rightarrow> 'a element list \<Rightarrow> nat" where
  "first_pass (old # olds) (new # news) =
     (if fst new = fst old then Suc (first_pass olds news) else 0)"
| "first_pass _ _ = 0"

fun mapRemainingChildren :: "nat \<Rightarrow> 'a element list \<Rightarrow> (map_key \<times> nat) list" where
  "mapRemainingChildren j [] = []"
| "mapRemainingChildren j (old # olds) =
     (let later = mapRemainingChildren (Suc j) olds
      in if slot_key old j \<in> fst ` set later then later else (slot_key old j, j) # later)"

type_synonym plan = "(nat option \<times> bool) list"

fun second_pass ::
  "(map_key \<times> nat) list \<Rightarrow> nat \<Rightarrow> nat \<Rightarrow> 'a element list \<Rightarrow> plan \<times> (map_key \<times> nat) list"
where
  "second_pass existing lastPlacedIndex i [] = ([], existing)"
| "second_pass existing lastPlacedIndex i (new # news) =
     (case map_of existing (slot_key new i) of
        None \<Rightarrow>
          (case second_pass existing lastPlacedIndex (Suc i) news of
             (rest, left) \<Rightarrow> ((None, True) # rest, left))
      | Some j \<Rightarrow>
          (case second_pass (filter (\<lambda>(k, _). k \<noteq> slot_key new i) existing)
                  (if j < lastPlacedIndex then lastPlacedIndex else j) (Suc i) news of
             (rest, left) \<Rightarrow> ((Some j, j < lastPlacedIndex) # rest, left)))"

definition reconcileChildrenArray :: "'a element list \<Rightarrow> 'a element list \<Rightarrow> plan \<times> nat list" where
  "reconcileChildrenArray olds news =
     (let m = first_pass olds news;
          kept = map (\<lambda>i. (Some i, False)) [0..<m]
      in if m = length news then (kept, [m..<length olds])
         else if m = length olds then (kept @ replicate (length news - m) (None, True), [])
         else (case second_pass (mapRemainingChildren m (drop m olds)) (m - 1) m (drop m news) of
                 (rest, left) \<Rightarrow> (kept @ rest, map snd left)))"

text \<open>
  Reconciling a single element (the message): the first old child with the element's key
  is reused, every other tracked child is deleted; without such a child all tracked
  children are deleted and the element is created, flagged for placement.
\<close>

fun first_with_key :: "string option \<Rightarrow> 'a element list \<Rightarrow> nat \<Rightarrow> nat option" where
  "first_with_key k [] j = None"
| "first_with_key k (old # olds) j = (if fst old = k then Some j else first_with_key k olds (Suc j))"

definition reconcileSingleElement :: "'a element list \<Rightarrow> 'a element \<Rightarrow> plan \<times> nat list" where
  "reconcileSingleElement olds new =
     (case first_with_key (fst new) olds 0 of
        None \<Rightarrow> ([(None, True)], [0..<length olds])
      | Some j \<Rightarrow> ([(Some j, False)], filter (\<lambda>j'. j' \<noteq> j) [0..<length olds]))"

text \<open>
  Committing a plan to the document. Deleted nodes are removed. A reused node that is not
  flagged stays where it is and takes the new element's content and handlers. A node
  that is no longer tracked, now or from before, stays where it is, unchanged. Then each
  flagged child, in list order, is inserted before the node of the next child that is not
  flagged, or appended when there is none; a reused node that is flagged is moved this
  way, which is the same as taking it out first.
\<close>

fun place_of :: "nat \<Rightarrow> plan \<Rightarrow> nat \<Rightarrow> (nat \<times> bool) option" where
  "place_of j [] i = None"
| "place_of j ((source, placed) # rest) i =
     (if source = Some j then Some (i, placed) else place_of j rest (Suc i))"

definition settle :: "plan \<Rightarrow> nat list \<Rightarrow> 'a element list \<Rightarrow> 'a dom_child \<Rightarrow> 'a dom_child list" where
  "settle pl deleted news n =
     (case fst n of
        None \<Rightarrow> [n]
      | Some j \<Rightarrow>
          if j \<in> set deleted then []
          else (case place_of j pl 0 of
                  None \<Rightarrow> [(None, snd n)]
                | Some (i, placed) \<Rightarrow> if placed then [] else [(Some i, news ! i)]))"

fun next_unplaced :: "plan \<Rightarrow> nat \<Rightarrow> nat option" where
  "next_unplaced [] i = None"
| "next_unplaced ((source, placed) # rest) i = (if placed then next_unplaced rest (Suc i) else Some i)"

definition insertBefore :: "'a dom_child \<Rightarrow> nat option \<Rightarrow> 'a dom_child list \<Rightarrow> 'a dom_child list" where
  "insertBefore n anchor ns =
     (case anchor of
        None \<Rightarrow> ns @ [n]
      | Some a \<Rightarrow> takeWhile (\<lambda>(t, _). t \<noteq> Some a) ns @ [n] @ dropWhile (\<lambda>(t, _). t \<noteq> Some a) ns)"

fun place_all :: "plan \<Rightarrow> nat \<Rightarrow> 'a element list \<Rightarrow> 'a dom_child list \<Rightarrow> 'a dom_child list" where
  "place_all [] i news ns = ns"
| "place_all ((source, placed) # rest) i news ns =
     place_all rest (Suc i) news
       (if placed then insertBefore (Some i, news ! i) (next_unplaced rest (Suc i)) ns else ns)"

definition commit :: "plan \<times> nat list \<Rightarrow> 'a element list \<Rightarrow> 'a children \<Rightarrow> 'a children" where
  "commit r news old =
     \<lparr>fibers = news,
      nodes = place_all (fst r) 0 news (concat (map (settle (fst r) (snd r) news) (nodes old)))\<rparr>"

definition update_array :: "'a element list \<Rightarrow> 'a children \<Rightarrow> 'a children" where
  "update_array news old = commit (reconcileChildrenArray (fibers old) news) news old"

definition update_single :: "'a element \<Rightarrow> 'a children \<Rightarrow> 'a children" where
  "update_single new old = commit (reconcileSingleElement (fibers old) new) [new] old"

subsection \<open>The rows and chips on screen\<close>

text \<open>
  What a node shows. A row and a chip also hold the props of the render that last updated
  them: their click handlers are closures of that render, and \<^verbatim>\<open>handleSelect\<close> and
  \<^verbatim>\<open>handleRemove\<close> read \<^verbatim>\<open>selectedValues\<close> from it.
\<close>

datatype shown = Row string props | Message string | Chip string props

definition row_element :: "props \<Rightarrow> string \<Rightarrow> shown element" where
  "row_element p option = (Some option, Row option p)"

definition chip_element :: "props \<Rightarrow> string \<Rightarrow> shown element" where
  "chip_element p value = (Some value, Chip value p)"

definition message_element :: "string \<Rightarrow> shown element" where
  "message_element m = (None, Message m)"

text \<open>
  The screen is the page together with the children of the overlay (absent while the
  picker is closed) and the chips. After every event the component is rendered and the
  result committed: the overlay is created with its children when it appears and dropped
  with all of them when it goes; while it stays, its single child expression (line 137)
  is reconciled as a single element when it is the message and as an array when it is the
  list of rows. The chips are always reconciled as an array.
\<close>

record screen =
  page_now :: world
  overlay_children :: "shown children option"
  chip_children :: "shown children"

definition blank :: "listener list \<Rightarrow> screen" where
  "blank ls = \<lparr>page_now = page ls, overlay_children = None, chip_children = mount_children []\<rparr>"

definition commit_screen :: "(string \<Rightarrow> string) \<Rightarrow> screen \<Rightarrow> world \<Rightarrow> screen" where
  "commit_screen lc old w =
     (case component w of
        None \<Rightarrow> \<lparr>page_now = w, overlay_children = None, chip_children = mount_children []\<rparr>
      | Some (p, s) \<Rightarrow>
          \<lparr>page_now = w,
           overlay_children =
             (case overlay (render lc p s) of
                None \<Rightarrow> None
              | Some (EmptyMessage m) \<Rightarrow>
                  Some (case overlay_children old of
                          None \<Rightarrow> mount_children [message_element m]
                        | Some ch \<Rightarrow> update_single (message_element m) ch)
              | Some (Candidates cs) \<Rightarrow>
                  Some (case overlay_children old of
                          None \<Rightarrow> mount_children (map (row_element p) cs)
                        | Some ch \<Rightarrow> update_array (map (row_element p) cs) ch)),
           chip_children =
             update_array (map (chip_element p) (chips (render lc p s))) (chip_children old)\<rparr>)"

text \<open>
  A click on the node at a position of the overlay, or on the remove button of the chip
  at a position, runs the handler that node holds, on the current state.
\<close>

fun deliver :: "shown \<Rightarrow> state \<Rightarrow> state \<times> string list list" where
  "deliver (Row option q) s = handleSelect q s option"
| "deliver (Chip value q) s = handleRemove q s value"
| "deliver (Message m) s = (s, [])"

definition click_node :: "shown children \<Rightarrow> nat \<Rightarrow> world \<Rightarrow> world" where
  "click_node ch i w =
     (case component w of
        None \<Rightarrow> w
      | Some (p, s) \<Rightarrow>
          if i < length (nodes ch)
          then (case deliver (snd (snd (nodes ch ! i))) s of
                  (s', calls) \<Rightarrow>
                    w\<lparr>component := Some (p, s'), onChange_calls := onChange_calls w @ calls\<rparr>)
          else w)"

datatype gesture = Page lifecycle | RowClickAt nat | ChipRemoveAt nat

fun screen_step ::
  "(string \<Rightarrow> string) \<Rightarrow> nat \<Rightarrow> nat \<Rightarrow> screen \<Rightarrow> gesture \<Rightarrow> screen"
where
  "screen_step lc h root scr (Page ev) =
     commit_screen lc scr (lifecycle_step lc h root (page_now scr) ev)"
| "screen_step lc h root scr (RowClickAt i) =
     commit_screen lc scr
       (case overlay_children scr of
          None \<Rightarrow> page_now scr
        | Some ch \<Rightarrow> click_node ch i (page_now scr))"
| "screen_step lc h root scr (ChipRemoveAt i) =
     commit_screen lc scr (click_node (chip_children scr) i (page_now scr))"

definition screen_run ::
  "(string \<Rightarrow> string) \<Rightarrow> nat \<Rightarrow> nat \<Rightarrow> screen \<Rightarrow> gesture list \<Rightarrow> screen" where
  "screen_run lc h root scr gs = foldl (screen_step lc h root) scr gs"

definition labels :: "shown children \<Rightarrow> string list" where
  "labels ch =
     concat (map (\<lambda>n. case snd (snd n) of Row c _ \<Rightarrow> [c] | Chip v _ \<Rightarrow> [v] | Message _ \<Rightarrow> [])
               (nodes ch))"

definition shown_rows :: "screen \<Rightarrow> string list" where
  "shown_rows scr = (case overlay_children scr of None \<Rightarrow> [] | Some ch \<Rightarrow> labels ch)"

definition shown_chips :: "screen \<Rightarrow> string list" where
  "shown_chips scr = labels (chip_children scr)"

subsection \<open>Reading the view and the page\<close>

text \<open>The rows of the overlay; none when the overlay is absent or holds a message.\<close>

definition visible_candidates :: "view \<Rightarrow> string list" where
  "visible_candidates v = (case overlay v of Some (Candidates cs) \<Rightarrow> cs | _ \<Rightarrow> [])"

text \<open>The state cells and the overlay of the mounted instance, if there is one.\<close>

definition current_state :: "world \<Rightarrow> state option" where
  "current_state w = map_option snd (component w)"

definition current_overlay :: "(string \<Rightarrow> string) \<Rightarrow> world \<Rightarrow> picker option" where
  "current_overlay lc w =
     (case component w of None \<Rightarrow> None | Some (p, s) \<Rightarrow> overlay (render lc p s))"

subsection \<open>Example inputs\<close>

definition example_props :: props where
  "example_props =
     \<lparr>options = [''Red'', ''Green'', ''Blue'', ''red''], selectedValues = [''Green'', ''red''],
      placeholder = ''Select options'', error = None\<rparr>"

definition empty_props :: props where
  "empty_props =
     \<lparr>options = [], selectedValues = [], placeholder = ''Select options'', error = None\<rparr>"

definition repeated_props :: props where
  "repeated_props =
     \<lparr>options = [''Red'', ''Red'', ''Blue''], selectedValues = [],
      placeholder = ''Select options'', error = None\<rparr>"

definition reordered_props :: props where
  "reordered_props =
     \<lparr>options = [''Blue'', ''Green'', ''Red''], selectedValues = [],
      placeholder = ''Select options'', error = None\<rparr>"

definition example_trace :: "gesture list" where
  "example_trace =
     [Page (Mount example_props), Page (User ToggleClick), Page (User (InputChange ''E'')),
      Page (Rerender reordered_props)]"

subsection \<open>Notions used in the proofs\<close>

text \<open>
  The positions of the children of a plan that are not flagged; the old indices a plan
  reuses, and those it reuses without a flag; the old children with their map keys; and a
  plan that accounts for every old child, reusing each at most once and keeping the
  unflagged ones in their old order.
\<close>

fun anchors :: "plan \<Rightarrow> nat \<Rightarrow> nat list" where
  "anchors [] i = []"
| "anchors ((source, placed) # rest) i =
     (if placed then anchors rest (Suc i) else i # anchors rest (Suc i))"

definition sources :: "plan \<Rightarrow> nat list" where
  "sources pl = concat (map (\<lambda>(source, placed). case source of None \<Rightarrow> [] | Some j \<Rightarrow> [j]) pl)"

definition kept_sources :: "plan \<Rightarrow> nat list" where
  "kept_sources pl =
     concat (map (\<lambda>(source, placed). case source of None \<Rightarrow> [] | Some j \<Rightarrow> if placed then [] else [j]) pl)"

fun indexed :: "nat \<Rightarrow> 'a element list \<Rightarrow> (map_key \<times> nat) list" where
  "indexed j [] = []"
| "indexed j (e # es) = (slot_key e j, j) # indexed (Suc j) es"

definition complete_plan :: "plan \<Rightarrow> nat list \<Rightarrow> nat \<Rightarrow> bool" where
  "complete_plan pl deleted n \<longleftrightarrow>
     distinct (sources pl) \<and> set (sources pl) \<union> set deleted = {..<n} \<and>
     set (sources pl) \<inter> set deleted = {} \<and> (None, False) \<notin> set pl \<and>
     sorted_wrt (<) (kept_sources pl)"

text \<open>
  The overlay as a fresh mount of the current element tree would give it, and a screen
  whose overlay is exactly that and whose candidate list has no repeated entry.
\<close>

definition expected_overlay :: "(string \<Rightarrow> string) \<Rightarrow> props \<Rightarrow> state \<Rightarrow> shown children option" where
  "expected_overlay lc p s =
     (case overlay (render lc p s) of
        None \<Rightarrow> None
      | Some (EmptyMessage m) \<Rightarrow> Some (mount_children [message_element m])
      | Some (Candidates cs) \<Rightarrow> Some (mount_children (map (row_element p) cs)))"

definition in_step :: "(string \<Rightarrow> string) \<Rightarrow> screen \<Rightarrow> bool" where
  "in_step lc scr =
     (case component (page_now scr) of
        None \<Rightarrow> overlay_children scr = None
      | Some (p, s) \<Rightarrow> distinct (options p) \<and> overlay_children scr = expected_overlay lc p s)"

section \<open>Properties\<close>

lemma string_includes_iff: "string_includes s t \<longleftrightarrow> (\<exists>ps ss. s = ps @ t @ ss)"
proof (induction s)
  case Nil
  then show ?case by auto
next
  case (Cons x xs)
  show ?case
  proof
    assume "string_includes (x # xs) t"
    then consider "prefix t (x # xs)" | "string_includes xs t" by auto
    then show "\<exists>ps ss. x # xs = ps @ t @ ss"
    proof cases
      case 1
      then obtain ss where "x # xs = t @ ss" by (auto simp: prefix_def)
      then have "x # xs = [] @ t @ ss" by simp
      then show ?thesis by blast
    next
      case 2
      with Cons.IH obtain ps ss where "xs = ps @ t @ ss" by blast
      then have "x # xs = (x # ps) @ t @ ss" by simp
      then show ?thesis by blast
    qed
  next
    assume "\<exists>ps ss. x # xs = ps @ t @ ss"
    then obtain ps ss where eq: "x # xs = ps @ t @ ss" by blast
    show "string_includes (x # xs) t"
    proof (cases ps)
      case Nil
      with eq have "prefix t (x # xs)" by (simp add: prefix_def)
      then show ?thesis by simp
    next
      case (Cons q qs)
      with eq have "xs = qs @ t @ ss" by simp
      with Cons.IH have "string_includes xs t" by blast
      then show ?thesis by simp
    qed
  qed
qed

lemma array_includes_iff: "array_includes ys x \<longleftrightarrow> x \<in> set ys"
  by (induction ys) auto

subsection \<open>Helper facts\<close>

lemma filteredOptions_filter:
  "filteredOptions lc p s =
     filter (\<lambda>c. c \<notin> set (selectedValues p) \<and> (\<exists>ps ss. lc c = ps @ lc (searchTerm s) @ ss))
       (options p)"
  unfolding filteredOptions_def
  by (rule filter_cong) (auto simp: string_includes_iff array_includes_iff)

lemma visible_candidates_open:
  "isOpen s \<Longrightarrow> visible_candidates (render lc p s) = filteredOptions lc p s"
  by (cases "filteredOptions lc p s") (simp_all add: visible_candidates_def render_def)

lemma filter_neq_removeAll: "filter (\<lambda>value. value \<noteq> v) xs = removeAll v xs"
  by (induction xs) auto

text \<open>Where the source empties the search term, and where the state cells start.\<close>

lemma search_term_emptied:
  "searchTerm (toggleDropdown s) = []"
  "searchTerm (fst (handleSelect p s c)) = []"
  "initial_state = \<lparr>isOpen = False, searchTerm = []\<rparr>"
  by (simp_all add: toggleDropdown_def handleSelect_def initial_state_def)

text \<open>The message of an open picker with no rows, and the first gestures after mounting.\<close>

lemma overlay_empty_message:
  "isOpen s \<Longrightarrow> filteredOptions lc p s = [] \<Longrightarrow>
   overlay (render lc p s) =
     Some (EmptyMessage (if searchTerm s \<noteq> [] then ''No options found''
                         else ''No options available''))"
  by (simp add: render_def)

lemma mount_then_open:
  "gesture = ContainerClick \<or> gesture = ToggleClick \<Longrightarrow>
   component (run lc h root (page ls) [Mount p, User gesture]) =
     Some (p, \<lparr>isOpen = True, searchTerm = []\<rparr>)"
  by (auto simp: run_def page_def initial_state_def toggleDropdown_def)

lemma mount_open_type:
  "gesture = ContainerClick \<or> gesture = ToggleClick \<Longrightarrow>
   component (run lc h root (page ls) [Mount p, User gesture, User (InputChange t)]) =
     Some (p, \<lparr>isOpen = True, searchTerm = t\<rparr>)"
  by (auto simp: run_def page_def initial_state_def toggleDropdown_def render_def)

lemma filteredOptions_no_options: "options p = [] \<Longrightarrow> filteredOptions lc p s = []"
  by (simp add: filteredOptions_def)

text \<open>
  Along every trace from a page on which nothing is mounted, a mounted instance has its
  handler in the document's listener list; when the handler was not there before, the list
  is the page's own list, with the handler appended exactly while an instance is mounted.
\<close>

lemma step_keeps_registration:
  assumes "component w \<noteq> None \<longrightarrow> (''mousedown'', h) \<in> set (listeners w)"
  shows "component (lifecycle_step lc h root w ev) \<noteq> None \<longrightarrow>
         (''mousedown'', h) \<in> set (listeners (lifecycle_step lc h root w ev))"
proof (cases ev)
  case (Mount p)
  then show ?thesis
    using assms by (auto simp: effect_setup_def addEventListener_def split: option.splits)
next
  case (Rerender p)
  then show ?thesis using assms by (auto split: option.splits)
next
  case (User e)
  then show ?thesis using assms by (cases e) (auto split: option.splits prod.splits)
next
  case Unmount
  then show ?thesis by (auto split: option.splits)
qed

lemma run_snoc: "run lc h root w (evs @ [ev]) = lifecycle_step lc h root (run lc h root w evs) ev"
  by (simp add: run_def)

lemma mounted_is_registered:
  "component (run lc h root (page ls) evs) \<noteq> None \<longrightarrow>
   (''mousedown'', h) \<in> set (listeners (run lc h root (page ls) evs))"
proof (induction evs rule: rev_induct)
  case Nil
  show ?case by (simp add: run_def page_def)
next
  case (snoc ev evs)
  then show ?case
    unfolding run_snoc by (rule step_keeps_registration)
qed

lemma step_listeners_shape:
  assumes "(''mousedown'', h) \<notin> set ls"
    and "listeners w = (if component w = None then ls else ls @ [(''mousedown'', h)])"
  shows "listeners (lifecycle_step lc h root w ev) =
           (if component (lifecycle_step lc h root w ev) = None then ls
            else ls @ [(''mousedown'', h)])"
proof (cases ev)
  case (Mount p)
  then show ?thesis
    using assms by (auto simp: effect_setup_def addEventListener_def split: option.splits)
next
  case (Rerender p)
  then show ?thesis using assms by (auto split: option.splits)
next
  case (User e)
  then show ?thesis using assms by (cases e) (auto split: option.splits prod.splits)
next
  case Unmount
  have "filter (\<lambda>l. l \<noteq> (''mousedown'', h)) ls = ls"
    using assms(1) by (auto simp: filter_id_conv)
  with Unmount show ?thesis
    using assms by (auto simp: effect_cleanup_def removeEventListener_def split: option.splits)
qed

lemma run_listeners_shape:
  assumes "(''mousedown'', h) \<notin> set ls"
  shows "listeners (run lc h root (page ls) evs) =
           (if component (run lc h root (page ls) evs) = None then ls
            else ls @ [(''mousedown'', h)])"
proof (induction evs rule: rev_induct)
  case Nil
  show ?case by (simp add: run_def page_def)
next
  case (snoc ev evs)
  show ?case
    unfolding run_snoc using assms snoc by (rule step_listeners_shape)
qed

subsection \<open>Reconciliation of children with distinct keys\<close>

text \<open>
  When the tracked children are all of the document's children and no two of them share a
  map key, reconciling against any new list leaves exactly the new list in the document,
  in its order: every old child is reused or deleted, the unflagged ones keep their order,
  and the placement pass puts the others between them.
\<close>

lemma sources_simps [simp]:
  "sources [] = []"
  "sources ((None, b) # pl) = sources pl"
  "sources ((Some j, b) # pl) = j # sources pl"
  "sources (xs @ ys) = sources xs @ sources ys"
  by (simp_all add: sources_def)

lemma kept_sources_simps [simp]:
  "kept_sources [] = []"
  "kept_sources ((None, b) # pl) = kept_sources pl"
  "kept_sources ((Some j, True) # pl) = kept_sources pl"
  "kept_sources ((Some j, False) # pl) = j # kept_sources pl"
  "kept_sources (xs @ ys) = kept_sources xs @ kept_sources ys"
  by (simp_all add: kept_sources_def)

lemma kept_subset_sources: "set (kept_sources pl) \<subseteq> set (sources pl)"
  by (induction pl) (auto simp: kept_sources_def sources_def split: option.splits)

lemma anchors_ge: "a \<in> set (anchors pl i) \<Longrightarrow> i \<le> a"
  by (induction pl i rule: anchors.induct) (auto split: if_splits)

lemma next_unplaced_anchors:
  "next_unplaced pl i = (case anchors pl i of [] \<Rightarrow> None | a # _ \<Rightarrow> Some a)"
  by (induction pl i rule: next_unplaced.induct) auto

lemma takeWhile_tag_upt:
  assumes "i \<le> a"
  shows "takeWhile (\<lambda>(t, _). t \<noteq> Some a) (map (\<lambda>i. (Some i, f i)) [0..<i] @ (Some a, x) # rest)
         = map (\<lambda>i. (Some i, f i)) [0..<i]"
    and "dropWhile (\<lambda>(t, _). t \<noteq> Some a) (map (\<lambda>i. (Some i, f i)) [0..<i] @ (Some a, x) # rest)
         = (Some a, x) # rest"
proof -
  have before: "\<And>e. e \<in> set (map (\<lambda>i. (Some i, f i)) [0..<i]) \<Longrightarrow> (\<lambda>(t, _). t \<noteq> Some a) e"
    using assms by auto
  show "takeWhile (\<lambda>(t, _). t \<noteq> Some a) (map (\<lambda>i. (Some i, f i)) [0..<i] @ (Some a, x) # rest)
         = map (\<lambda>i. (Some i, f i)) [0..<i]"
    using before by (subst takeWhile_append2) simp_all
  show "dropWhile (\<lambda>(t, _). t \<noteq> Some a) (map (\<lambda>i. (Some i, f i)) [0..<i] @ (Some a, x) # rest)
         = (Some a, x) # rest"
    using before by (subst dropWhile_append2) simp_all
qed

lemma place_all_upt:
  "place_all pl i news (map (\<lambda>i. (Some i, news ! i)) ([0..<i] @ anchors pl i))
   = map (\<lambda>i. (Some i, news ! i)) [0..<i + length pl]"
proof (induction pl arbitrary: i)
  case Nil
  show ?case by simp
next
  case (Cons e pl)
  obtain source placed where e: "e = (source, placed)" by (cases e)
  show ?case
  proof (cases placed)
    case False
    with e Cons.IH [of "Suc i"] show ?thesis by simp
  next
    case True
    have "insertBefore (Some i, news ! i) (next_unplaced pl (Suc i))
            (map (\<lambda>i. (Some i, news ! i)) ([0..<i] @ anchors pl (Suc i)))
          = map (\<lambda>i. (Some i, news ! i)) ([0..<Suc i] @ anchors pl (Suc i))"
    proof (cases "anchors pl (Suc i)")
      case Nil
      then show ?thesis by (simp add: insertBefore_def next_unplaced_anchors)
    next
      case (Cons a as)
      then have "i \<le> a" using anchors_ge [of a pl "Suc i"] by simp
      then show ?thesis
        using Cons takeWhile_tag_upt [of i a "\<lambda>i. news ! i"]
        by (simp add: insertBefore_def next_unplaced_anchors)
    qed
    with True e Cons.IH [of "Suc i"] show ?thesis by simp
  qed
qed

lemma place_of_None: "j \<notin> set (sources pl) \<Longrightarrow> place_of j pl i = None"
  by (induction j pl i rule: place_of.induct) (auto simp: sources_def split: if_splits option.splits)

lemma place_of_kept:
  "distinct (sources pl) \<Longrightarrow> j \<in> set (kept_sources pl) \<Longrightarrow> \<exists>i'. place_of j pl i = Some (i', False)"
proof (induction j pl i rule: place_of.induct)
  case (1 j i)
  then show ?case by simp
next
  case (2 j source placed rest i)
  show ?case
  proof (cases source)
    case None
    with 2 show ?thesis by simp
  next
    case (Some j')
    show ?thesis
    proof (cases "j' = j")
      case True
      have "j \<notin> set (kept_sources rest)"
        using 2(2) Some True kept_subset_sources [of rest] by auto
      with 2(3) Some True show ?thesis by (cases placed) auto
    next
      case False
      with 2 Some show ?thesis by (cases placed) auto
    qed
  qed
qed

lemma place_of_moved:
  "distinct (sources pl) \<Longrightarrow> j \<in> set (sources pl) \<Longrightarrow> j \<notin> set (kept_sources pl) \<Longrightarrow>
   \<exists>i'. place_of j pl i = Some (i', True)"
proof (induction j pl i rule: place_of.induct)
  case (1 j i)
  then show ?case by simp
next
  case (2 j source placed rest i)
  show ?case
  proof (cases source)
    case None
    with 2 show ?thesis by simp
  next
    case (Some j')
    show ?thesis
    proof (cases "j' = j")
      case True
      with 2(4) Some show ?thesis by (cases placed) auto
    next
      case False
      with 2 Some show ?thesis by (cases placed) auto
    qed
  qed
qed

lemma anchors_pos:
  "distinct (sources pl) \<Longrightarrow> (None, False) \<notin> set pl \<Longrightarrow>
   anchors pl i = map (\<lambda>j. fst (the (place_of j pl i))) (kept_sources pl)"
proof (induction pl arbitrary: i)
  case Nil
  show ?case by simp
next
  case (Cons e pl)
  obtain source placed where e: "e = (source, placed)" by (cases e)
  have ih: "anchors pl (Suc i) = map (\<lambda>j. fst (the (place_of j pl (Suc i)))) (kept_sources pl)"
    using Cons e by (cases source) auto
  have other: "\<And>j. j \<in> set (kept_sources pl) \<Longrightarrow> source \<noteq> Some j"
    using Cons.prems(1) e kept_subset_sources [of pl] by (cases source) auto
  have same: "map (\<lambda>j. fst (the (place_of j (e # pl) i))) (kept_sources pl)
              = map (\<lambda>j. fst (the (place_of j pl (Suc i)))) (kept_sources pl)"
    using other e by (intro map_cong) auto
  show ?case
  proof (cases placed)
    case True
    then have "kept_sources (e # pl) = kept_sources pl"
      using e by (cases source) auto
    with True e ih same show ?thesis by simp
  next
    case False
    with Cons.prems(2) e obtain j0 where j0: "source = Some j0" by (cases source) auto
    with False e ih same show ?thesis by simp
  qed
qed

lemma concat_map_if: "concat (map (\<lambda>j. if P j then [f j] else []) js) = map f (filter P js)"
  by (induction js) auto

lemma filter_mem_upt:
  assumes "sorted_wrt (<) ks" and "set ks \<subseteq> {..<n}"
  shows "filter (\<lambda>j. j \<in> set ks) [0..<n] = (ks :: nat list)"
proof (rule sorted_distinct_set_unique)
  show "sorted (filter (\<lambda>j. j \<in> set ks) [0..<n])" by (simp add: sorted_wrt_filter)
  show "distinct (filter (\<lambda>j. j \<in> set ks) [0..<n])" by simp
  show "sorted ks" using assms(1) by (simp add: strict_sorted_iff)
  show "distinct ks" using assms(1) by (simp add: strict_sorted_iff)
  show "set (filter (\<lambda>j. j \<in> set ks) [0..<n]) = set ks" using assms(2) by auto
qed

lemma zip_upt_nth: "zip (map f [0..<length xs]) xs = map (\<lambda>j. (f j, xs ! j)) [0..<length xs]"
  by (rule nth_equalityI) simp_all

lemma settle_all:
  assumes "complete_plan pl deleted (length olds)"
  shows "concat (map (settle pl deleted news) (nodes (mount_children olds)))
         = map (\<lambda>i. (Some i, news ! i)) (anchors pl 0)"
proof -
  let ?pos = "\<lambda>j. fst (the (place_of j pl 0))"
  from assms have d: "distinct (sources pl)"
    and cover: "set (sources pl) \<union> set deleted = {..<length olds}"
    and disj: "set (sources pl) \<inter> set deleted = {}"
    and nf: "(None, False) \<notin> set pl"
    and srt: "sorted_wrt (<) (kept_sources pl)"
    by (simp_all add: complete_plan_def)
  have each: "settle pl deleted news (Some j, olds ! j)
              = (if j \<in> set (kept_sources pl) then [(Some (?pos j), news ! ?pos j)] else [])"
    if "j < length olds" for j
  proof (cases "j \<in> set (kept_sources pl)")
    case True
    then have "j \<in> set (sources pl)" using kept_subset_sources by auto
    with disj have nd: "j \<notin> set deleted" by auto
    from place_of_kept [OF d True] obtain i' where "place_of j pl 0 = Some (i', False)" by blast
    with True nd show ?thesis by (simp add: settle_def)
  next
    case False
    show ?thesis
    proof (cases "j \<in> set deleted")
      case True
      with False show ?thesis by (simp add: settle_def)
    next
      case nd: False
      with cover that have "j \<in> set (sources pl)" by auto
      from place_of_moved [OF d this False] obtain i' where "place_of j pl 0 = Some (i', True)"
        by blast
      with False nd show ?thesis by (simp add: settle_def)
    qed
  qed
  have "concat (map (settle pl deleted news) (nodes (mount_children olds)))
        = concat (map (\<lambda>j. settle pl deleted news (Some j, olds ! j)) [0..<length olds])"
    by (simp add: mount_children_def zip_upt_nth comp_def)
  also have "\<dots> = concat (map (\<lambda>j. if j \<in> set (kept_sources pl)
                                   then [(Some (?pos j), news ! ?pos j)] else []) [0..<length olds])"
    using each by (intro arg_cong [where f = concat] map_cong) auto
  also have "\<dots> = map (\<lambda>j. (Some (?pos j), news ! ?pos j))
                     (filter (\<lambda>j. j \<in> set (kept_sources pl)) [0..<length olds])"
    by (rule concat_map_if)
  also have "filter (\<lambda>j. j \<in> set (kept_sources pl)) [0..<length olds] = kept_sources pl"
    using srt cover kept_subset_sources [of pl] by (intro filter_mem_upt) auto
  also have "map (\<lambda>j. (Some (?pos j), news ! ?pos j)) (kept_sources pl)
             = map (\<lambda>i. (Some i, news ! i)) (map ?pos (kept_sources pl))"
    by simp
  also have "map ?pos (kept_sources pl) = anchors pl 0"
    using anchors_pos [OF d nf, of 0] by simp
  finally show ?thesis .
qed

lemma commit_complete:
  assumes "complete_plan pl deleted (length olds)" and "length pl = length news"
  shows "commit (pl, deleted) news (mount_children olds) = mount_children news"
proof -
  have settled: "concat (map (settle pl deleted news) (nodes (mount_children olds)))
        = map (\<lambda>i. (Some i, news ! i)) (anchors pl 0)"
    using assms(1) by (rule settle_all)
  have "place_all pl 0 news (map (\<lambda>i. (Some i, news ! i)) (anchors pl 0))
        = map (\<lambda>i. (Some i, news ! i)) [0..<length news]"
    using place_all_upt [of pl 0 news] assms(2) by simp
  then have "nodes (commit (pl, deleted) news (mount_children olds)) = nodes (mount_children news)"
    unfolding commit_def by (simp add: settled) (simp add: mount_children_def zip_upt_nth)
  moreover have "fibers (commit (pl, deleted) news (mount_children olds)) = fibers (mount_children news)"
    by (simp add: commit_def mount_children_def)
  ultimately show ?thesis by simp
qed

lemma first_pass_le: "first_pass olds news \<le> length olds \<and> first_pass olds news \<le> length news"
  by (induction olds news rule: first_pass.induct) auto

lemma indexed_values: "map snd (indexed j olds) = [j..<j + length olds]"
proof (induction olds arbitrary: j)
  case Nil
  show ?case by simp
next
  case (Cons e es)
  have "[j..<j + length (e # es)] = j # [Suc j..<Suc j + length es]"
    by (subst upt_rec) simp
  then show ?case using Cons.IH [of "Suc j"] by simp
qed

lemma indexed_append: "indexed j (xs @ ys) = indexed j xs @ indexed (j + length xs) ys"
  by (induction xs arbitrary: j) auto

lemma indexed_drop:
  assumes "distinct (map fst (indexed 0 olds))" and "m \<le> length olds"
  shows "distinct (map fst (indexed m (drop m olds)))"
proof -
  have "indexed 0 (take m olds @ drop m olds) = indexed 0 (take m olds) @ indexed m (drop m olds)"
    using assms(2) by (simp only: indexed_append) (simp add: min_def)
  then have "indexed 0 olds = indexed 0 (take m olds) @ indexed m (drop m olds)"
    by simp
  with assms(1) show ?thesis by simp
qed

lemma mapRemainingChildren_distinct:
  "distinct (map fst (indexed j olds)) \<Longrightarrow> mapRemainingChildren j olds = indexed j olds"
  by (induction olds arbitrary: j) (auto simp: Let_def)

lemma sources_kept_upt:
  "sources (map (\<lambda>i. (Some i, False)) js) = js"
  "kept_sources (map (\<lambda>i. (Some i, False)) js) = js"
  by (induction js) auto

lemma sources_created:
  "sources (replicate k (None, True)) = []"
  "kept_sources (replicate k (None, True)) = []"
  by (induction k) auto

lemma map_of_filter_out:
  assumes "distinct (map fst mp)" and "distinct (map snd mp)" and "map_of mp k = Some j"
  shows "snd ` set (filter (\<lambda>(k', _). k' \<noteq> k) mp) = snd ` set mp - {j}"
proof -
  from assms(3) have in_mp: "(k, j) \<in> set mp" by (rule map_of_SomeD)
  have inj: "inj_on snd (set mp)" using assms(2) by (simp add: distinct_map)
  have key: "(k' = k) = (j' = j)" if "(k', j') \<in> set mp" for k' j'
  proof
    assume "k' = k"
    with that in_mp show "j' = j" using eq_key_imp_eq_value [OF assms(1)] by blast
  next
    assume "j' = j"
    with that in_mp have "(k', j) \<in> set mp" "(k, j) \<in> set mp" by simp_all
    then have "(k', j) = (k, j)" using inj_onD [OF inj, of "(k', j)" "(k, j)"] by simp
    then show "k' = k" by simp
  qed
  show ?thesis
  proof (intro set_eqI iffI)
    fix x assume "x \<in> snd ` set (filter (\<lambda>(k', _). k' \<noteq> k) mp)"
    then obtain k' where "(k', x) \<in> set mp" "k' \<noteq> k" by auto
    with key show "x \<in> snd ` set mp - {j}" by force
  next
    fix x assume "x \<in> snd ` set mp - {j}"
    then obtain k' where "(k', x) \<in> set mp" "x \<noteq> j" by auto
    with key have "k' \<noteq> k" by auto
    with \<open>(k', x) \<in> set mp\<close> show "x \<in> snd ` set (filter (\<lambda>(k', _). k' \<noteq> k) mp)" by force
  qed
qed

lemma second_pass_complete:
  assumes "second_pass mp lpi i ns = (rest, left)"
    and "distinct (map fst mp)" and "distinct (map snd mp)"
  shows "length rest = length ns \<and> distinct (sources rest) \<and>
         set (sources rest) \<union> snd ` set left = snd ` set mp \<and>
         set (sources rest) \<inter> snd ` set left = {} \<and>
         (None, False) \<notin> set rest \<and> sorted_wrt (<) (kept_sources rest) \<and>
         (\<forall>j\<in>set (kept_sources rest). lpi \<le> j)"
  using assms
proof (induction ns arbitrary: mp lpi i rest left)
  case Nil
  then show ?case by auto
next
  case (Cons new ns)
  show ?case
  proof (cases "map_of mp (slot_key new i)")
    case None
    obtain rest' left' where r: "second_pass mp lpi (Suc i) ns = (rest', left')"
      by (cases "second_pass mp lpi (Suc i) ns")
    from Cons.prems(1) None r have eq: "rest = (None, True) # rest'" "left = left'" by auto
    from Cons.IH [OF r Cons.prems(2,3)] eq show ?thesis by auto
  next
    case (Some j)
    let ?mp = "filter (\<lambda>(k, _). k \<noteq> slot_key new i) mp"
    let ?lpi = "if j < lpi then lpi else j"
    obtain rest' left' where r: "second_pass ?mp ?lpi (Suc i) ns = (rest', left')"
      by (cases "second_pass ?mp ?lpi (Suc i) ns")
    from Cons.prems(1) Some r have eq: "rest = (Some j, j < lpi) # rest'" "left = left'" by auto
    have d1: "distinct (map fst ?mp)" using Cons.prems(2) by (simp add: distinct_map_filter)
    have d2: "distinct (map snd ?mp)" using Cons.prems(3) by (simp add: distinct_map_filter)
    have vals: "snd ` set ?mp = snd ` set mp - {j}"
      using Cons.prems(2,3) Some by (rule map_of_filter_out)
    have jin: "j \<in> snd ` set mp" using map_of_SomeD [OF Some] by force
    note ih = Cons.IH [OF r d1 d2]
    have src: "set (sources rest') \<subseteq> snd ` set mp - {j}" using ih vals by auto
    have kept: "set (kept_sources rest') \<subseteq> snd ` set mp - {j}"
      using src kept_subset_sources [of rest'] by auto
    show ?thesis
    proof (cases "j < lpi")
      case True
      with ih eq vals jin src show ?thesis by auto
    next
      case False
      then have after: "\<forall>j'\<in>set (kept_sources rest'). j < j'"
        using ih kept by (auto simp: le_less)
      with False ih eq vals jin src show ?thesis by auto
    qed
  qed
qed

lemma reconcileChildrenArray_complete:
  assumes "distinct (map fst (indexed 0 olds))"
  shows "complete_plan (fst (reconcileChildrenArray olds news)) (snd (reconcileChildrenArray olds news))
           (length olds)
         \<and> length (fst (reconcileChildrenArray olds news)) = length news"
proof -
  let ?m = "first_pass olds news"
  let ?kept = "map (\<lambda>i. (Some i, False)) [0..<?m]"
  have le: "?m \<le> length olds" "?m \<le> length news" using first_pass_le [of olds news] by auto
  show ?thesis
  proof (cases "?m = length news")
    case True
    then have "reconcileChildrenArray olds news = (?kept, [?m..<length olds])"
      by (simp add: reconcileChildrenArray_def Let_def)
    with le True show ?thesis
      by (auto simp: complete_plan_def sources_kept_upt)
  next
    case notA: False
    show ?thesis
    proof (cases "?m = length olds")
      case True
      with notA have "reconcileChildrenArray olds news
                      = (?kept @ replicate (length news - ?m) (None, True), [])"
        by (simp add: reconcileChildrenArray_def Let_def)
      with le True show ?thesis
        by (auto simp: complete_plan_def sources_kept_upt sources_created)
    next
      case notB: False
      let ?mp = "mapRemainingChildren ?m (drop ?m olds)"
      obtain rest left where r: "second_pass ?mp (?m - 1) ?m (drop ?m news) = (rest, left)"
        by (cases "second_pass ?mp (?m - 1) ?m (drop ?m news)")
      with notA notB have eq: "reconcileChildrenArray olds news = (?kept @ rest, map snd left)"
        by (simp add: reconcileChildrenArray_def Let_def)
      have dk: "distinct (map fst (indexed ?m (drop ?m olds)))"
        using assms le(1) by (rule indexed_drop)
      then have mp: "?mp = indexed ?m (drop ?m olds)" by (rule mapRemainingChildren_distinct)
      have vs: "map snd ?mp = [?m..<length olds]"
        using le(1) by (simp add: mp indexed_values)
      have "snd ` set ?mp = set (map snd ?mp)" by simp
      also have "\<dots> = {?m..<length olds}" by (simp only: vs set_upt)
      finally have vset: "snd ` set ?mp = {?m..<length olds}" .
      have d1: "distinct (map fst ?mp)" using dk mp by simp
      have d2: "distinct (map snd ?mp)" using vs by simp
      note sp = second_pass_complete [OF r d1 d2]
      have src: "set (sources rest) \<subseteq> {?m..<length olds}" using sp vset by auto
      have lv: "snd ` set left \<subseteq> {?m..<length olds}" using sp vset by auto
      have kept: "set (kept_sources rest) \<subseteq> {?m..<length olds}"
        using src kept_subset_sources [of rest] by auto
      have "distinct (sources (?kept @ rest))"
        using sp src by (auto simp: sources_kept_upt)
      moreover have "set (sources (?kept @ rest)) \<union> set (map snd left) = {..<length olds}"
      proof -
        have "set (sources rest) \<union> snd ` set left = {?m..<length olds}" using sp vset by simp
        then have "{..<?m} \<union> (set (sources rest) \<union> snd ` set left) = {..<length olds}"
          using le(1) by auto
        then show ?thesis by (simp add: sources_kept_upt Un_assoc lessThan_atLeast0)
      qed
      moreover have "set (sources (?kept @ rest)) \<inter> set (map snd left) = {}"
        using sp lv by (auto simp: sources_kept_upt)
      moreover have "(None, False) \<notin> set (?kept @ rest)" using sp by auto
      moreover have "sorted_wrt (<) (kept_sources (?kept @ rest))"
        using sp kept by (auto simp: sources_kept_upt sorted_wrt_append)
      moreover have "length (?kept @ rest) = length news" using sp le(2) by simp
      ultimately show ?thesis by (simp add: eq complete_plan_def)
    qed
  qed
qed

lemma first_with_key_range: "first_with_key k olds j0 = Some j \<Longrightarrow> j0 \<le> j \<and> j < j0 + length olds"
  by (induction k olds j0 rule: first_with_key.induct) (auto split: if_splits)

lemma reconcileSingleElement_complete:
  "complete_plan (fst (reconcileSingleElement olds new)) (snd (reconcileSingleElement olds new))
     (length olds)
   \<and> length (fst (reconcileSingleElement olds new)) = 1"
proof (cases "first_with_key (fst new) olds 0")
  case None
  then show ?thesis by (auto simp: reconcileSingleElement_def complete_plan_def)
next
  case (Some j)
  with first_with_key_range [OF Some] show ?thesis
    by (auto simp: reconcileSingleElement_def complete_plan_def)
qed

lemma update_array_mounted:
  assumes "distinct (map fst (indexed 0 olds))"
  shows "update_array news (mount_children olds) = mount_children news"
proof -
  obtain pl deleted where r: "reconcileChildrenArray olds news = (pl, deleted)"
    by (cases "reconcileChildrenArray olds news")
  with reconcileChildrenArray_complete [OF assms, of news]
  have "complete_plan pl deleted (length olds)" "length pl = length news" by auto
  then have "commit (pl, deleted) news (mount_children olds) = mount_children news"
    by (rule commit_complete)
  with r show ?thesis by (simp add: update_array_def mount_children_def)
qed

lemma update_single_mounted: "update_single new (mount_children olds) = mount_children [new]"
proof -
  obtain pl deleted where r: "reconcileSingleElement olds new = (pl, deleted)"
    by (cases "reconcileSingleElement olds new")
  with reconcileSingleElement_complete [of olds new]
  have "complete_plan pl deleted (length olds)" "length pl = length [new]" by auto
  then have "commit (pl, deleted) [new] (mount_children olds) = mount_children [new]"
    by (rule commit_complete)
  with r show ?thesis by (simp add: update_single_def mount_children_def)
qed

text \<open>
  As long as every candidate list the host has supplied is free of repetitions, the
  overlay on screen is the one a fresh mount of the current element tree would give.
\<close>

lemma indexed_rows: "map fst (indexed j (map (row_element p) cs)) = map ByKey cs"
  by (induction cs arbitrary: j) (simp_all add: row_element_def slot_key_def)

lemma distinct_filteredOptions: "distinct (options p) \<Longrightarrow> distinct (filteredOptions lc p s)"
  by (simp add: filteredOptions_def)

lemma labels_rows: "labels (mount_children (map (row_element p) cs)) = cs"
proof -
  have "map (\<lambda>n. case snd (snd n) of Row c _ \<Rightarrow> [c] | Chip v _ \<Rightarrow> [v] | Message _ \<Rightarrow> [])
          (zip (map Some [0..<length cs]) (map (row_element p) cs)) = map (\<lambda>c. [c]) cs"
    by (rule nth_equalityI) (simp_all add: row_element_def)
  then show ?thesis by (simp add: labels_def mount_children_def)
qed

lemma labels_message: "labels (mount_children [message_element m]) = []"
  by (simp add: labels_def mount_children_def message_element_def)

lemma in_step_shape:
  assumes "in_step lc scr"
  shows "overlay_children scr = None \<or>
         (\<exists>olds. overlay_children scr = Some (mount_children olds) \<and>
                 distinct (map fst (indexed 0 olds)))"
proof (cases "component (page_now scr)")
  case None
  with assms show ?thesis by (simp add: in_step_def)
next
  case (Some ps)
  obtain p s where ps: "ps = (p, s)" by (cases ps)
  from assms Some ps have d: "distinct (options p)"
    and ov: "overlay_children scr = expected_overlay lc p s"
    by (simp_all add: in_step_def)
  show ?thesis
  proof (cases "overlay (render lc p s)")
    case None
    with ov show ?thesis by (simp add: expected_overlay_def)
  next
    case (Some pk)
    show ?thesis
    proof (cases pk)
      case (EmptyMessage m)
      with Some ov have "overlay_children scr = Some (mount_children [message_element m])"
        by (simp add: expected_overlay_def)
      moreover have "distinct (map fst (indexed 0 [message_element m]))" by simp
      ultimately show ?thesis by blast
    next
      case (Candidates cs)
      with Some have "cs = filteredOptions lc p s"
        by (auto simp: render_def split: if_splits)
      with d have "distinct cs" by (simp add: distinct_filteredOptions)
      then have "distinct (map fst (indexed 0 (map (row_element p) cs)))"
        by (simp add: indexed_rows distinct_map inj_on_def)
      moreover from Candidates Some ov
      have "overlay_children scr = Some (mount_children (map (row_element p) cs))"
        by (simp add: expected_overlay_def)
      ultimately show ?thesis by blast
    qed
  qed
qed

lemma commit_screen_in_step:
  assumes "in_step lc old" and "\<And>p s. component w = Some (p, s) \<Longrightarrow> distinct (options p)"
  shows "in_step lc (commit_screen lc old w)"
proof (cases "component w")
  case None
  then show ?thesis by (simp add: in_step_def commit_screen_def)
next
  case (Some ps)
  obtain p s where ps: "ps = (p, s)" by (cases ps)
  with Some assms(2) have d: "distinct (options p)" by simp
  have "overlay_children (commit_screen lc old w) = expected_overlay lc p s"
    using in_step_shape [OF assms(1)]
  proof
    assume "overlay_children old = None"
    with Some ps show ?thesis
      by (simp add: commit_screen_def expected_overlay_def split: option.splits picker.splits)
  next
    assume "\<exists>olds. overlay_children old = Some (mount_children olds) \<and>
                 distinct (map fst (indexed 0 olds))"
    then obtain olds where o: "overlay_children old = Some (mount_children olds)"
      and dk: "distinct (map fst (indexed 0 olds))" by blast
    with Some ps show ?thesis
      by (simp add: commit_screen_def expected_overlay_def update_single_mounted
          update_array_mounted [OF dk] split: option.splits picker.splits)
  qed
  with Some ps d show ?thesis by (simp add: in_step_def commit_screen_def)
qed

lemma lifecycle_step_props:
  assumes "component (lifecycle_step lc h root w ev) = Some (p, s)"
  shows "ev = Mount p \<or> ev = Rerender p \<or> (\<exists>s0. component w = Some (p, s0))"
proof (cases ev)
  case (Mount q)
  with assms show ?thesis by (auto split: option.splits)
next
  case (Rerender q)
  with assms show ?thesis by (auto split: option.splits)
next
  case (User e)
  with assms show ?thesis by (cases e) (auto split: option.splits prod.splits if_splits)
next
  case Unmount
  with assms show ?thesis by (auto split: option.splits)
qed

lemma click_node_props:
  assumes "component (click_node ch i w) = Some (p, s)"
  shows "\<exists>s0. component w = Some (p, s0)"
  using assms by (auto simp: click_node_def split: option.splits prod.splits if_splits)

lemma screen_step_in_step:
  assumes "in_step lc scr"
    and "\<And>q. g = Page (Mount q) \<or> g = Page (Rerender q) \<Longrightarrow> distinct (options q)"
  shows "in_step lc (screen_step lc h root scr g)"
proof -
  have kept: "distinct (options p)" if "component (page_now scr) = Some (p, s0)" for p s0
    using assms(1) that by (simp add: in_step_def)
  show ?thesis
  proof (cases g)
    case (Page ev)
    have "distinct (options p)" if "component (lifecycle_step lc h root (page_now scr) ev) = Some (p, s)"
      for p s
      using lifecycle_step_props [OF that] assms(2) Page kept by auto
    with Page assms(1) show ?thesis by (simp add: commit_screen_in_step)
  next
    case (RowClickAt i)
    have "distinct (options p)"
      if "component (case overlay_children scr of None \<Rightarrow> page_now scr
                     | Some ch \<Rightarrow> click_node ch i (page_now scr)) = Some (p, s)" for p s
      using that kept click_node_props by (cases "overlay_children scr") fastforce+
    with RowClickAt assms(1) show ?thesis by (simp add: commit_screen_in_step)
  next
    case (ChipRemoveAt i)
    have "distinct (options p)"
      if "component (click_node (chip_children scr) i (page_now scr)) = Some (p, s)" for p s
      using click_node_props [OF that] kept by auto
    with ChipRemoveAt assms(1) show ?thesis by (simp add: commit_screen_in_step)
  qed
qed

lemma screen_run_snoc:
  "screen_run lc h root scr (gs @ [g]) = screen_step lc h root (screen_run lc h root scr gs) g"
  by (simp add: screen_run_def)

lemma screen_run_in_step:
  assumes "\<And>q. Page (Mount q) \<in> set gs \<or> Page (Rerender q) \<in> set gs \<Longrightarrow> distinct (options q)"
  shows "in_step lc (screen_run lc h root (blank ls) gs)"
  using assms
proof (induction gs rule: rev_induct)
  case Nil
  show ?case by (simp add: screen_run_def blank_def page_def in_step_def)
next
  case (snoc g gs)
  have "in_step lc (screen_run lc h root (blank ls) gs)"
    using snoc.prems by (intro snoc.IH) auto
  then show ?case
    unfolding screen_run_snoc using snoc.prems by (intro screen_step_in_step) auto
qed

subsection \<open>Filtering\<close>

text \<open>
  The rows of the element tree of an open picker are the entries of \<open>options\<close>, in their
  order, that are not among \<open>selectedValues\<close> and whose lowercased text has the
  lowercased search term as a substring.
\<close>

lemma rendered_rows_filter:
  assumes "isOpen s"
  shows "visible_candidates (render lc p s) =
           filter (\<lambda>c. c \<notin> set (selectedValues p) \<and>
                        (\<exists>ps ss. lc c = ps @ lc (searchTerm s) @ ss)) (options p)"
proof -
  have "visible_candidates (render lc p s) = filteredOptions lc p s"
    using assms by (rule visible_candidates_open)
  then show ?thesis
    by (simp add: filteredOptions_filter)
qed

text \<open>
  Claim C1 says that for every candidate list the open picker shows exactly the entries
  that pass the filter. With a repeated entry it does not: for \<open>options\<close> = Red, Red, Blue,
  opening the picker shows three rows, and typing \<open>b\<close> leaves the first Red row on screen
  next to Blue. Both Red rows have the key Red; the later one shadows the earlier one in
  the framework's map, so the earlier one is never deleted.
\<close>

theorem C1_repeated_option_counterexample:
  "component (page_now (screen_run toLowerCase_ascii 11 10 (blank [])
      [Page (Mount repeated_props), Page (User ToggleClick), Page (User (InputChange ''b''))]))
     = Some (repeated_props, \<lparr>isOpen = True, searchTerm = ''b''\<rparr>) \<and>
   shown_rows (screen_run toLowerCase_ascii 11 10 (blank [])
      [Page (Mount repeated_props), Page (User ToggleClick), Page (User (InputChange ''b''))])
     = [''Red'', ''Blue''] \<and>
   filter (\<lambda>c. c \<notin> set (selectedValues repeated_props) \<and>
                (\<exists>ps ss. toLowerCase_ascii c = ps @ toLowerCase_ascii ''b'' @ ss))
     (options repeated_props) = [''Blue'']"
proof -
  have a: "component (page_now (screen_run toLowerCase_ascii 11 10 (blank [])
      [Page (Mount repeated_props), Page (User ToggleClick), Page (User (InputChange ''b''))]))
     = Some (repeated_props, \<lparr>isOpen = True, searchTerm = ''b''\<rparr>)"
    by code_simp
  have b: "shown_rows (screen_run toLowerCase_ascii 11 10 (blank [])
      [Page (Mount repeated_props), Page (User ToggleClick), Page (User (InputChange ''b''))])
     = [''Red'', ''Blue'']"
    by code_simp
  have c: "filteredOptions toLowerCase_ascii repeated_props \<lparr>isOpen = True, searchTerm = ''b''\<rparr>
           = [''Blue'']"
    by code_simp
  from a b c show ?thesis
    by (simp add: filteredOptions_filter)
qed

text \<open>
  Claim C1, amended. As long as no candidate list that the host has supplied since
  mounting has a repeated entry, then after any sequence of events, renders with new
  props included, the rows on screen in the open picker are the entries of \<open>options\<close>, in
  their order, that are not among \<open>selectedValues\<close> and whose lowercased text has the
  lowercased search term as a substring; nothing else is shown, and nothing is reordered.
\<close>

theorem C1_shown_rows:
  assumes "\<forall>q. Page (Mount q) \<in> set gs \<or> Page (Rerender q) \<in> set gs \<longrightarrow> distinct (options q)"
    and "component (page_now (screen_run lc h root (blank ls) gs)) = Some (p, s)"
    and "isOpen s"
  shows "shown_rows (screen_run lc h root (blank ls) gs) =
           filter (\<lambda>c. c \<notin> set (selectedValues p) \<and>
                        (\<exists>ps ss. lc c = ps @ lc (searchTerm s) @ ss)) (options p)
         \<and> subseq (shown_rows (screen_run lc h root (blank ls) gs)) (options p)"
proof -
  have "in_step lc (screen_run lc h root (blank ls) gs)"
    using assms(1) by (intro screen_run_in_step) blast
  with assms(2) have ov: "overlay_children (screen_run lc h root (blank ls) gs)
                          = expected_overlay lc p s"
    by (simp add: in_step_def)
  have "shown_rows (screen_run lc h root (blank ls) gs) = filteredOptions lc p s"
  proof (cases "filteredOptions lc p s = []")
    case True
    with assms(3) ov show ?thesis
      by (simp add: shown_rows_def expected_overlay_def render_def labels_message)
  next
    case False
    with assms(3) ov show ?thesis
      by (simp add: shown_rows_def expected_overlay_def render_def labels_rows)
  qed
  then show ?thesis by (simp add: filteredOptions_filter)
qed

theorem C1_shown_rows_witness:
  "distinct (options example_props) \<and> distinct (options reordered_props) \<and>
   component (page_now (screen_run toLowerCase_ascii 11 10 (blank []) example_trace))
     = Some (reordered_props, \<lparr>isOpen = True, searchTerm = ''E''\<rparr>) \<and>
   isOpen \<lparr>isOpen = True, searchTerm = ''E''\<rparr> \<and>
   shown_rows (screen_run toLowerCase_ascii 11 10 (blank []) (take 3 example_trace))
     = [''Red'', ''Blue''] \<and>
   shown_rows (screen_run toLowerCase_ascii 11 10 (blank []) example_trace)
     = [''Blue'', ''Green'', ''Red''] \<and>
   filter (\<lambda>c. c \<notin> set (selectedValues reordered_props) \<and>
                (\<exists>ps ss. toLowerCase_ascii c = ps @ toLowerCase_ascii ''E'' @ ss))
     (options reordered_props) = [''Blue'', ''Green'', ''Red'']"
proof -
  have d: "\<forall>q. Page (Mount q) \<in> set example_trace \<or> Page (Rerender q) \<in> set example_trace
        \<longrightarrow> distinct (options q)"
    by (auto simp: example_trace_def example_props_def reordered_props_def)
  have c: "component (page_now (screen_run toLowerCase_ascii 11 10 (blank []) example_trace))
     = Some (reordered_props, \<lparr>isOpen = True, searchTerm = ''E''\<rparr>)"
    by code_simp
  have o: "isOpen \<lparr>isOpen = True, searchTerm = ''E''\<rparr>" by simp
  have before: "shown_rows (screen_run toLowerCase_ascii 11 10 (blank []) (take 3 example_trace))
     = [''Red'', ''Blue'']"
    by code_simp
  have after: "shown_rows (screen_run toLowerCase_ascii 11 10 (blank []) example_trace)
     = [''Blue'', ''Green'', ''Red'']"
    by code_simp
  show ?thesis
    using C1_shown_rows [OF d c o] c before after
    by (simp add: example_props_def reordered_props_def)
qed

text \<open>
  Two more traces with repeated keys. Clicking the Red row left over in the first trace
  runs the handler of the render that made it: \<^verbatim>\<open>onChange\<close> is called with that
  render's selection followed by Red, the search term is emptied and the picker stays
  open. With \<open>selectedValues\<close> = a, a, b, removing a and rendering the host's answer b
  leaves the first chip a on screen.
\<close>

lemma leftover_row_click:
  "onChange_calls (page_now (screen_run toLowerCase_ascii 11 10 (blank [])
      [Page (Mount repeated_props), Page (User ToggleClick), Page (User (InputChange ''b'')),
       RowClickAt 0])) = [[''Red'']] \<and>
   current_state (page_now (screen_run toLowerCase_ascii 11 10 (blank [])
      [Page (Mount repeated_props), Page (User ToggleClick), Page (User (InputChange ''b'')),
       RowClickAt 0])) = Some \<lparr>isOpen = True, searchTerm = []\<rparr>"
  by code_simp

lemma leftover_chip:
  "shown_chips (screen_run toLowerCase_ascii 11 10 (blank [])
      [Page (Mount (repeated_props\<lparr>selectedValues := [''a'', ''a'', ''b'']\<rparr>)),
       ChipRemoveAt 0]) = [''a'', ''a'', ''b''] \<and>
   onChange_calls (page_now (screen_run toLowerCase_ascii 11 10 (blank [])
      [Page (Mount (repeated_props\<lparr>selectedValues := [''a'', ''a'', ''b'']\<rparr>)),
       ChipRemoveAt 0])) = [[''b'']] \<and>
   shown_chips (screen_run toLowerCase_ascii 11 10 (blank [])
      [Page (Mount (repeated_props\<lparr>selectedValues := [''a'', ''a'', ''b'']\<rparr>)),
       ChipRemoveAt 0,
       Page (Rerender (repeated_props\<lparr>selectedValues := [''b'']\<rparr>))]) = [''a'', ''b'']"
  by code_simp

subsection \<open>Selecting and removing\<close>





text \<open>
  Claim C9. Removing a value that does not occur in \<open>selectedValues\<close> calls \<^verbatim>\<open>onChange\<close>
  with \<open>selectedValues\<close> itself.
\<close>

theorem C9_remove_absent:
  assumes "v \<notin> set (selectedValues p)"
  shows "handleRemove p s v = (s, [selectedValues p])"
proof -
  have "removeAll v (selectedValues p) = selectedValues p"
    using assms by simp
  then show ?thesis by (simp add: handleRemove_def filter_neq_removeAll)
qed

theorem C9_remove_absent_witness:
  "''Blue'' \<notin> set (selectedValues example_props) \<and>
   handleRemove example_props initial_state ''Blue'' = (initial_state, [[''Green'', ''red'']])"
proof -
  have ab: "''Blue'' \<notin> set (selectedValues example_props)"
    by (simp add: example_props_def)
  show ?thesis
    using C9_remove_absent [OF ab, of initial_state] ab
    by (simp add: example_props_def)
qed

subsection \<open>Closing from outside, and the listener\<close>

text \<open>
  Claim C7. In any page reached with an instance mounted and its picker open, a
  pointer-down whose target is outside the root element closes the picker and changes
  nothing else: the props, and with them \<open>selectedValues\<close>, are the same, and the log of
  \<^verbatim>\<open>onChange\<close> calls has not grown.
\<close>

theorem C7_outside_pointer_down:
  assumes "w = run lc h root (page ls) evs"
    and "component w = Some (p, s)"
    and "isOpen s"
    and "\<not> node_contains root target_path"
  shows "lifecycle_step lc h root w (User (MouseDown target_path)) =
           w\<lparr>component := Some (p, s\<lparr>isOpen := False\<rparr>)\<rparr>"
proof -
  have "(''mousedown'', h) \<in> set (listeners w)"
    using mounted_is_registered [of lc h root ls evs] assms(1,2) by simp
  then show ?thesis
    using assms(2,4) by (simp add: handleClickOutside_def)
qed

theorem C7_outside_pointer_down_witness:
  "component (run toLowerCase_ascii 11 10 (page []) [Mount example_props, User ToggleClick])
     = Some (example_props, \<lparr>isOpen = True, searchTerm = []\<rparr>) \<and>
   isOpen \<lparr>isOpen = True, searchTerm = []\<rparr> \<and>
   \<not> node_contains 10 [7, 8] \<and>
   lifecycle_step toLowerCase_ascii 11 10
     (run toLowerCase_ascii 11 10 (page []) [Mount example_props, User ToggleClick])
     (User (MouseDown [7, 8]))
     = \<lparr>listeners = [(''mousedown'', 11)],
        component = Some (example_props, \<lparr>isOpen = False, searchTerm = []\<rparr>),
        onChange_calls = []\<rparr>"
proof -
  have w: "run toLowerCase_ascii 11 10 (page []) [Mount example_props, User ToggleClick]
           = \<lparr>listeners = [(''mousedown'', 11)],
              component = Some (example_props, \<lparr>isOpen = True, searchTerm = []\<rparr>),
              onChange_calls = []\<rparr>"
    by (simp add: run_def page_def effect_setup_def addEventListener_def initial_state_def
        toggleDropdown_def)
  have c: "component (run toLowerCase_ascii 11 10 (page []) [Mount example_props, User ToggleClick])
           = Some (example_props, \<lparr>isOpen = True, searchTerm = []\<rparr>)"
    by (simp add: w)
  have o: "isOpen \<lparr>isOpen = True, searchTerm = []\<rparr>" by simp
  have n: "\<not> node_contains 10 [7, 8]" by (simp add: node_contains_def)
  show ?thesis
    using C7_outside_pointer_down [OF refl c o n] c n
    by (simp add: w)
qed

text \<open>
  Claim C8. The handler is in the document's listener list exactly while an instance is
  mounted, whatever happened since the page was created, and unmounting at any point
  leaves the list as it was before the first mount.
\<close>

theorem C8_listener_registered_while_mounted:
  assumes "(''mousedown'', h) \<notin> set ls"
  shows "((''mousedown'', h) \<in> set (listeners (run lc h root (page ls) evs)) \<longleftrightarrow>
            component (run lc h root (page ls) evs) \<noteq> None)
         \<and> listeners (run lc h root (page ls) (evs @ [Unmount])) = ls"
proof -
  have a: "listeners (run lc h root (page ls) evs) =
           (if component (run lc h root (page ls) evs) = None then ls
            else ls @ [(''mousedown'', h)])"
    using assms by (rule run_listeners_shape)
  have b: "listeners (run lc h root (page ls) (evs @ [Unmount])) =
           (if component (run lc h root (page ls) (evs @ [Unmount])) = None then ls
            else ls @ [(''mousedown'', h)])"
    using assms by (rule run_listeners_shape)
  have c: "component (run lc h root (page ls) (evs @ [Unmount])) = None"
    unfolding run_snoc by (simp split: option.splits)
  from a assms b c show ?thesis by auto
qed

theorem C8_listener_registered_while_mounted_witness:
  "(''mousedown'', 11) \<notin> set [(''keydown'', 5)] \<and>
   (''mousedown'', 11) \<in> set (listeners (run toLowerCase_ascii 11 10 (page [(''keydown'', 5)])
       [Mount example_props, User ToggleClick])) \<and>
   component (run toLowerCase_ascii 11 10 (page [(''keydown'', 5)])
       [Mount example_props, User ToggleClick]) \<noteq> None \<and>
   listeners (run toLowerCase_ascii 11 10 (page [(''keydown'', 5)])
       ([Mount example_props, User ToggleClick] @ [Unmount])) = [(''keydown'', 5)]"
proof -
  have f: "(''mousedown'', 11) \<notin> set [(''keydown'', 5::nat)]" by simp
  have m: "component (run toLowerCase_ascii 11 10 (page [(''keydown'', 5)])
       [Mount example_props, User ToggleClick]) \<noteq> None"
    by (simp add: run_def page_def)
  show ?thesis
    using C8_listener_registered_while_mounted
      [OF f, of toLowerCase_ascii 10 "[Mount example_props, User ToggleClick]"] m
    by simp
qed

subsection \<open>The search term across closing and opening\<close>

text \<open>
  Claim C4 says that every passage from closed to open empties the search term, by the
  container as well as by the toggle button. \<open>toggleDropdown\<close> does empty it; the
  container's handler (line 82) only sets the flag. Here the user opens the picker, types
  \<open>re\<close>, presses the pointer outside, which closes the picker with the term kept, and
  clicks the container: the picker opens with \<open>re\<close> still as its search term.
\<close>

theorem C4_container_click_keeps_search_term:
  "current_state (run toLowerCase_ascii 11 10 (page [])
      [Mount example_props, User ToggleClick, User (InputChange ''re''), User (MouseDown [7])])
     = Some \<lparr>isOpen = False, searchTerm = ''re''\<rparr> \<and>
   current_state (run toLowerCase_ascii 11 10 (page [])
      [Mount example_props, User ToggleClick, User (InputChange ''re''), User (MouseDown [7]),
       User ContainerClick])
     = Some \<lparr>isOpen = True, searchTerm = ''re''\<rparr>"
  by (simp add: current_state_def run_def page_def effect_setup_def addEventListener_def
      initial_state_def toggleDropdown_def render_def handleClickOutside_def node_contains_def)

text \<open>
  Claim C6 says that the search term is empty after every passage from open to closed.
  \<open>toggleDropdown\<close> and \<open>handleSelect\<close> empty it; \<open>handleKeyDown\<close> and
  \<open>handleClickOutside\<close> only clear the flag. After typing \<open>re\<close>, closing by Escape and
  closing by a pointer-down outside both leave \<open>re\<close> in the search term.
\<close>

theorem C6_close_keeps_search_term:
  "current_state (run toLowerCase_ascii 11 10 (page [])
      [Mount example_props, User ContainerClick, User (InputChange ''re''),
       User (InputKeyDown ''Escape'')])
     = Some \<lparr>isOpen = False, searchTerm = ''re''\<rparr> \<and>
   current_state (run toLowerCase_ascii 11 10 (page [])
      [Mount example_props, User ContainerClick, User (InputChange ''re''),
       User (MouseDown [7])])
     = Some \<lparr>isOpen = False, searchTerm = ''re''\<rparr>"
  by (simp add: current_state_def run_def page_def effect_setup_def addEventListener_def
      initial_state_def render_def handleKeyDown_def handleClickOutside_def node_contains_def)

subsection \<open>The message of the empty picker\<close>

text \<open>
  Claim C5 says that with \<open>options = []\<close> and \<open>selectedValues = []\<close> the open picker
  keeps showing \<open>No options available\<close> whatever is typed. Line 139 chooses the message by
  the search term alone: with no options at all, typing \<open>x\<close> shows \<open>No options found\<close>.
\<close>

theorem C5_empty_options_counterexample:
  "options empty_props = [] \<and> selectedValues empty_props = [] \<and>
   current_overlay toLowerCase_ascii
     (run toLowerCase_ascii 11 10 (page [])
        [Mount empty_props, User ToggleClick, User (InputChange ''x'')])
     = Some (EmptyMessage ''No options found'') \<and>
   current_overlay toLowerCase_ascii
     (run toLowerCase_ascii 11 10 (page [])
        [Mount empty_props, User ToggleClick, User (InputChange ''x'')])
     \<noteq> Some (EmptyMessage ''No options available'')"
  by (simp add: current_overlay_def run_def page_def initial_state_def toggleDropdown_def
      render_def filteredOptions_def empty_props_def)

text \<open>
  Claim C5, amended. An open picker with no rows shows \<open>No options found\<close> when the
  search term is not empty and \<open>No options available\<close> when it is empty. With
  \<open>options = []\<close>, the picker opened right after mounting, by the container or by the
  toggle button, shows \<open>No options available\<close>, and after typing any non-empty search
  term it shows \<open>No options found\<close>.
\<close>

theorem C5_empty_message:
  "(isOpen s \<and> filteredOptions lc p s = [] \<longrightarrow>
      overlay (render lc p s) =
        Some (EmptyMessage (if searchTerm s \<noteq> [] then ''No options found''
                            else ''No options available'')))
   \<and> (options q = [] \<and> (gesture = ContainerClick \<or> gesture = ToggleClick) \<longrightarrow>
        current_overlay lc (run lc h root (page ls) [Mount q, User gesture])
          = Some (EmptyMessage ''No options available'')
        \<and> (t \<noteq> [] \<longrightarrow>
             current_overlay lc
               (run lc h root (page ls) [Mount q, User gesture, User (InputChange t)])
             = Some (EmptyMessage ''No options found'')))"
proof (intro conjI impI)
  assume "isOpen s \<and> filteredOptions lc p s = []"
  then show "overlay (render lc p s) =
        Some (EmptyMessage (if searchTerm s \<noteq> [] then ''No options found''
                            else ''No options available''))"
    by (simp add: overlay_empty_message)
next
  assume a: "options q = [] \<and> (gesture = ContainerClick \<or> gesture = ToggleClick)"
  then have f: "filteredOptions lc q \<lparr>isOpen = True, searchTerm = []\<rparr> = []"
    by (simp add: filteredOptions_no_options)
  from a have "component (run lc h root (page ls) [Mount q, User gesture]) =
     Some (q, \<lparr>isOpen = True, searchTerm = []\<rparr>)"
    by (simp add: mount_then_open)
  then show "current_overlay lc (run lc h root (page ls) [Mount q, User gesture])
          = Some (EmptyMessage ''No options available'')"
    using overlay_empty_message [OF _ f] by (simp add: current_overlay_def)
next
  assume a: "options q = [] \<and> (gesture = ContainerClick \<or> gesture = ToggleClick)"
    and t: "t \<noteq> []"
  from a have f: "filteredOptions lc q \<lparr>isOpen = True, searchTerm = t\<rparr> = []"
    by (simp add: filteredOptions_no_options)
  from a have "component (run lc h root (page ls) [Mount q, User gesture, User (InputChange t)]) =
     Some (q, \<lparr>isOpen = True, searchTerm = t\<rparr>)"
    by (simp add: mount_open_type)
  then show "current_overlay lc
               (run lc h root (page ls) [Mount q, User gesture, User (InputChange t)])
             = Some (EmptyMessage ''No options found'')"
    using overlay_empty_message [OF _ f] t by (simp add: current_overlay_def)
qed

theorem C5_empty_message_witness:
  "isOpen \<lparr>isOpen = True, searchTerm = ''zz''\<rparr> \<and>
   filteredOptions toLowerCase_ascii example_props \<lparr>isOpen = True, searchTerm = ''zz''\<rparr> = [] \<and>
   overlay (render toLowerCase_ascii example_props \<lparr>isOpen = True, searchTerm = ''zz''\<rparr>)
     = Some (EmptyMessage ''No options found'') \<and>
   options empty_props = [] \<and>
   current_overlay toLowerCase_ascii
     (run toLowerCase_ascii 11 10 (page []) [Mount empty_props, User ToggleClick])
     = Some (EmptyMessage ''No options available'') \<and>
   ''x'' \<noteq> [] \<and>
   current_overlay toLowerCase_ascii
     (run toLowerCase_ascii 11 10 (page [])
        [Mount empty_props, User ToggleClick, User (InputChange ''x'')])
     = Some (EmptyMessage ''No options found'')"
proof -
  have f: "filteredOptions toLowerCase_ascii example_props \<lparr>isOpen = True, searchTerm = ''zz''\<rparr> = []"
    by code_simp
  have e: "options empty_props = []"
    by (simp add: empty_props_def)
  show ?thesis
    using C5_empty_message
      [where s = "\<lparr>isOpen = True, searchTerm = ''zz''\<rparr>" and lc = toLowerCase_ascii
         and p = example_props and q = empty_props and gesture = ToggleClick
         and h = 11 and root = 10 and ls = "[]" and t = "''x''"] f e
    by simp
qed

subsection \<open>Exclusion by exact equality\<close>

text \<open>
  Claim C10 says that a candidate \<open>c\<close> that differs from a selected value \<open>s\<close> only in
  case is offered in the picker. Nothing in the claim makes \<open>c\<close> pass the search: with
  Red a candidate, red selected and the search term \<open>x\<close>, Red is not offered.
\<close>

theorem C10_search_mismatch_counterexample:
  "''Red'' \<in> set (options example_props) \<and>
   ''red'' \<in> set (selectedValues example_props) \<and>
   ''Red'' \<noteq> ''red'' \<and>
   toLowerCase_ascii ''Red'' = toLowerCase_ascii ''red'' \<and>
   ''Red'' \<notin> set (visible_candidates
      (render toLowerCase_ascii example_props \<lparr>isOpen = True, searchTerm = ''x''\<rparr>))"
  by code_simp

text \<open>
  Claim C10, amended. Selected values are excluded by exact equality, while the search is
  on lowercased text. Let \<open>c\<close> be a candidate that is not itself selected and whose
  lowercased text contains the lowercased search term, and let \<open>s\<close> be a selected value
  with \<open>c \<noteq> s\<close> and the same lowercased text. Then \<open>c\<close> is among the rows the open
  picker renders and \<open>s\<close> is not, although \<open>s\<close> passes the search just as \<open>c\<close> does; and
  clicking \<open>c\<close> calls \<^verbatim>\<open>onChange\<close> with a selection that holds both \<open>s\<close> and \<open>c\<close>.
\<close>

theorem C10_exact_exclusion_lowercased_search:
  assumes "isOpen st"
    and "c \<in> set (options p)"
    and "s \<in> set (selectedValues p)"
    and "c \<noteq> s"
    and "lc c = lc s"
    and "c \<notin> set (selectedValues p)"
    and "\<exists>ps ss. lc c = ps @ lc (searchTerm st) @ ss"
  shows "c \<in> set (visible_candidates (render lc p st))
         \<and> s \<notin> set (visible_candidates (render lc p st))
         \<and> string_includes (lc s) (lc (searchTerm st))
         \<and> step lc dropdownRef p st (OptionClick c) =
             (\<lparr>isOpen = True, searchTerm = []\<rparr>, [selectedValues p @ [c]])
         \<and> s \<in> set (selectedValues p @ [c]) \<and> c \<in> set (selectedValues p @ [c])"
proof -
  have vis: "visible_candidates (render lc p st) = filteredOptions lc p st"
    using assms(1) by (rule visible_candidates_open)
  have inc: "string_includes (lc c) (lc (searchTerm st))"
    using assms(7) by (simp add: string_includes_iff)
  have shown: "c \<in> set (filteredOptions lc p st)"
    using assms(2,6) inc by (simp add: filteredOptions_def array_includes_iff)
  have hidden: "s \<notin> set (filteredOptions lc p st)"
    using assms(3) by (simp add: filteredOptions_def array_includes_iff)
  have ov: "overlay (render lc p st) = Some (Candidates (filteredOptions lc p st))"
    using shown assms(1) by (auto simp: render_def)
  have click: "step lc dropdownRef p st (OptionClick c) =
             (\<lparr>isOpen = True, searchTerm = []\<rparr>, [selectedValues p @ [c]])"
    using ov shown assms(1) by (simp add: handleSelect_def)
  from vis shown hidden inc click assms(3,5) show ?thesis by simp
qed

theorem C10_exact_exclusion_lowercased_search_witness:
  "isOpen \<lparr>isOpen = True, searchTerm = ''RE''\<rparr> \<and>
   ''Red'' \<in> set (options example_props) \<and>
   ''red'' \<in> set (selectedValues example_props) \<and>
   ''Red'' \<noteq> ''red'' \<and>
   toLowerCase_ascii ''Red'' = toLowerCase_ascii ''red'' \<and>
   ''Red'' \<notin> set (selectedValues example_props) \<and>
   toLowerCase_ascii ''Red'' = [] @ toLowerCase_ascii ''RE'' @ ''d'' \<and>
   visible_candidates
      (render toLowerCase_ascii example_props \<lparr>isOpen = True, searchTerm = ''RE''\<rparr>) = [''Red''] \<and>
   ''red'' \<in> set (options example_props) \<and>
   string_includes (toLowerCase_ascii ''red'') (toLowerCase_ascii ''RE'') \<and>
   step toLowerCase_ascii (Some 10) example_props \<lparr>isOpen = True, searchTerm = ''RE''\<rparr>
     (OptionClick ''Red'')
     = (\<lparr>isOpen = True, searchTerm = []\<rparr>, [[''Green'', ''red'', ''Red'']])"
proof -
  have o: "isOpen \<lparr>isOpen = True, searchTerm = ''RE''\<rparr>" by simp
  have a: "''Red'' \<in> set (options example_props)" by (simp add: example_props_def)
  have a': "''red'' \<in> set (options example_props)" by (simp add: example_props_def)
  have m: "''red'' \<in> set (selectedValues example_props)" by (simp add: example_props_def)
  have n: "''Red'' \<noteq> ''red''" by simp
  have l: "toLowerCase_ascii ''Red'' = toLowerCase_ascii ''red''" by code_simp
  have u: "''Red'' \<notin> set (selectedValues example_props)" by (simp add: example_props_def)
  have e: "toLowerCase_ascii ''Red'' = [] @ toLowerCase_ascii ''RE'' @ ''d''" by code_simp
  have x: "\<exists>ps ss. toLowerCase_ascii ''Red''
             = ps @ toLowerCase_ascii (searchTerm \<lparr>isOpen = True, searchTerm = ''RE''\<rparr>) @ ss"
    using e by (metis state.select_convs(2))
  have v: "visible_candidates
      (render toLowerCase_ascii example_props \<lparr>isOpen = True, searchTerm = ''RE''\<rparr>) = [''Red'']"
    by code_simp
  have sel: "selectedValues example_props = [''Green'', ''red'']"
    by (simp add: example_props_def)
  show ?thesis
    using C10_exact_exclusion_lowercased_search [OF o a m n l u x, of "Some 10"] a a' m l u e v sel
    by simp
qed

end
